theory Spec2Isabelle
  imports Main "HOL-Library.Word"
begin

unbundle bit_operations_syntax

section \<open>Python values, characters and conversions\<close>

text \<open>
  The analysed functions are the three static methods of \<open>DataAnalyzer\<close> in
  \<^verbatim>\<open>cellint-rc.py\<close>: \<^verbatim>\<open>parse_report_content\<close>, \<^verbatim>\<open>calculate_possible_imsis\<close> and
  \<^verbatim>\<open>calculate_possible_imeis\<close>.  Their dictionaries are typed \<^verbatim>\<open>Dict[str, Any]\<close>; the
  values that reach the arithmetic are strings (the defaults, JSON text) and integers (what
  \<^verbatim>\<open>parse_report_content\<close> and the JSON of the telephony tool store).  A Python string is a
  list of characters; a \<^typ>\<open>char\<close> stands for the code point below 256 with the same
  number, and the character classes of \<^verbatim>\<open>re\<close> and \<^verbatim>\<open>str\<close> are written out for exactly
  these code points.  Python integers are unbounded, hence \<^typ>\<open>int\<close>.  The calls to
  \<^verbatim>\<open>Logger.log\<close> (console and log file) are not part of the model.
\<close>

datatype pyval = PStr string | PInt int

text \<open>
  The exceptions the modelled code can raise are \<open>TypeError\<close> and \<open>ValueError\<close>.
  \<open>InvalidParameterError\<close> is the name the specification uses; no statement of the source
  raises it, the constructor exists so that statements about it can be written down.
\<close>

datatype error = TypeError | ValueError | InvalidParameterError

definition digit_chars :: string where
  "digit_chars = ''0123456789''"

definition space_chars :: string where
  "space_chars = [CHR 0x09, CHR 0x0A, CHR 0x0B, CHR 0x0C, CHR 0x0D, CHR 0x1C, CHR 0x1D,
                  CHR 0x1E, CHR 0x1F, CHR 0x20, CHR 0x85, CHR 0xA0]"

definition upper_chars :: string where
  "upper_chars = ''ABCDEFGHIJKLMNOPQRSTUVWXYZ'' @
     [CHR 0xC0, CHR 0xC1, CHR 0xC2, CHR 0xC3, CHR 0xC4, CHR 0xC5, CHR 0xC6, CHR 0xC7,
      CHR 0xC8, CHR 0xC9, CHR 0xCA, CHR 0xCB, CHR 0xCC, CHR 0xCD, CHR 0xCE, CHR 0xCF,
      CHR 0xD0, CHR 0xD1, CHR 0xD2, CHR 0xD3, CHR 0xD4, CHR 0xD5, CHR 0xD6, CHR 0xD8,
      CHR 0xD9, CHR 0xDA, CHR 0xDB, CHR 0xDC, CHR 0xDD, CHR 0xDE]"

definition lower_chars :: string where
  "lower_chars = ''abcdefghijklmnopqrstuvwxyz'' @
     [CHR 0xE0, CHR 0xE1, CHR 0xE2, CHR 0xE3, CHR 0xE4, CHR 0xE5, CHR 0xE6, CHR 0xE7,
      CHR 0xE8, CHR 0xE9, CHR 0xEA, CHR 0xEB, CHR 0xEC, CHR 0xED, CHR 0xEE, CHR 0xEF,
      CHR 0xF0, CHR 0xF1, CHR 0xF2, CHR 0xF3, CHR 0xF4, CHR 0xF5, CHR 0xF6, CHR 0xF8,
      CHR 0xF9, CHR 0xFA, CHR 0xFB, CHR 0xFC, CHR 0xFD, CHR 0xFE]"

text \<open>Alphanumeric code points below 256 that are neither ASCII nor in the two tables
  above: the ordinal indicators, micro, sharp s, y with diaeresis, superscript digits and
  the vulgar fractions.\<close>

definition other_alnum_chars :: string where
  "other_alnum_chars = [CHR 0xAA, CHR 0xB2, CHR 0xB3, CHR 0xB5, CHR 0xB9, CHR 0xBA,
                        CHR 0xBC, CHR 0xBD, CHR 0xBE, CHR 0xDF, CHR 0xFF]"

definition py_isdigit :: "char \<Rightarrow> bool" where
  \<comment> \<open>\<^verbatim>\<open>\d\<close> of \<^verbatim>\<open>re\<close>, and the digits \<^verbatim>\<open>int()\<close> accepts\<close>
  "py_isdigit c = (c \<in> set digit_chars)"

definition py_isspace :: "char \<Rightarrow> bool" where
  \<comment> \<open>\<^verbatim>\<open>\s\<close> of \<^verbatim>\<open>re\<close>, and the white space \<^verbatim>\<open>int()\<close> strips\<close>
  "py_isspace c = (c \<in> set space_chars)"

definition py_isword :: "char \<Rightarrow> bool" where
  \<comment> \<open>\<^verbatim>\<open>\w\<close> of \<^verbatim>\<open>re\<close>: alphanumeric or the underscore\<close>
  "py_isword c =
     (c \<in> set digit_chars \<or> c \<in> set upper_chars \<or> c \<in> set lower_chars \<or>
      c \<in> set other_alnum_chars \<or> c = CHR ''_'')"

definition lower_char :: "char \<Rightarrow> char" where
  "lower_char c = (case map_of (zip upper_chars lower_chars) c of Some l \<Rightarrow> l | None \<Rightarrow> c)"

definition py_lower :: "string \<Rightarrow> string" where
  \<comment> \<open>\<^verbatim>\<open>str.lower()\<close>\<close>
  "py_lower s = map lower_char s"

definition digit_val :: "char \<Rightarrow> nat" where
  "digit_val c = of_char c - 48"

definition digit_char :: "nat \<Rightarrow> char" where
  "digit_char n = digit_chars ! (n mod 10)"

fun str_nat :: "nat \<Rightarrow> string" where
  "str_nat n = (if n < 10 then [digit_char n] else str_nat (n div 10) @ [digit_char n])"

declare str_nat.simps [simp del]

definition str_int :: "int \<Rightarrow> string" where
  "str_int n = (if n < 0 then CHR ''-'' # str_nat (nat (- n)) else str_nat (nat n))"

definition py_str :: "pyval \<Rightarrow> string" where
  \<comment> \<open>\<^verbatim>\<open>str(x)\<close>, also what an f-string field \<^verbatim>\<open>{x}\<close> inserts\<close>
  "py_str v = (case v of PStr s \<Rightarrow> s | PInt n \<Rightarrow> str_int n)"

definition py_strip :: "string \<Rightarrow> string" where
  "py_strip s = rev (dropWhile py_isspace (rev (dropWhile py_isspace s)))"

text \<open>
  The decimal literal \<^verbatim>\<open>int()\<close> accepts after stripping white space and an optional sign:
  digits, with single underscores allowed between two digits.  The flag says whether the
  previous character was a digit.
\<close>

fun int_digits :: "bool \<Rightarrow> nat \<Rightarrow> string \<Rightarrow> nat option" where
  "int_digits prev acc [] = (if prev then Some acc else None)"
| "int_digits prev acc (c # cs) =
     (if py_isdigit c then int_digits True (acc * 10 + digit_val c) cs
      else if c = CHR ''_'' \<and> prev then int_digits False acc cs
      else None)"

definition int_str :: "string \<Rightarrow> error + int" where
  "int_str s =
     (case py_strip s of
        [] \<Rightarrow> Inl ValueError
      | c # cs \<Rightarrow>
          if c = CHR ''-'' then
            (case int_digits False 0 cs of None \<Rightarrow> Inl ValueError | Some n \<Rightarrow> Inr (- int n))
          else if c = CHR ''+'' then
            (case int_digits False 0 cs of None \<Rightarrow> Inl ValueError | Some n \<Rightarrow> Inr (int n))
          else
            (case int_digits False 0 (c # cs) of None \<Rightarrow> Inl ValueError | Some n \<Rightarrow> Inr (int n)))"

definition py_int :: "pyval \<Rightarrow> error + int" where
  \<comment> \<open>\<^verbatim>\<open>int(x)\<close>\<close>
  "py_int v = (case v of PInt n \<Rightarrow> Inr n | PStr s \<Rightarrow> int_str s)"

definition py_add :: "pyval \<Rightarrow> pyval \<Rightarrow> error + pyval" where
  \<comment> \<open>\<^verbatim>\<open>x + y\<close>: concatenation of strings, addition of integers, \<open>TypeError\<close> when mixed\<close>
  "py_add x y =
     (case (x, y) of
        (PStr a, PStr b) \<Rightarrow> Inr (PStr (a @ b))
      | (PInt a, PInt b) \<Rightarrow> Inr (PInt (a + b))
      | _ \<Rightarrow> Inl TypeError)"

definition zfill :: "nat \<Rightarrow> string \<Rightarrow> string" where
  \<comment> \<open>\<^verbatim>\<open>s.zfill(width)\<close>: zeros go after a leading sign\<close>
  "zfill width s =
     (let pad = replicate (width - length s) CHR ''0'' in
      case s of
        c # cs \<Rightarrow> if c = CHR ''+'' \<or> c = CHR ''-'' then c # pad @ cs else pad @ s
      | [] \<Rightarrow> pad)"

definition slice_to :: "int \<Rightarrow> 'a list \<Rightarrow> 'a list" where
  \<comment> \<open>\<^verbatim>\<open>xs[:count]\<close>; a negative bound counts from the end\<close>
  "slice_to count xs =
     (if 0 \<le> count then take (nat count) xs else take (length xs - nat (- count)) xs)"

section \<open>The random source and the iteration order of a set\<close>

text \<open>
  \<^verbatim>\<open>random\<close> is an endless stream of draws: the state is the stream, a call reads its head
  and leaves the tail.  \<^verbatim>\<open>randint(a, b)\<close> is uniform on the \<open>b - a + 1\<close> integers from \<open>a\<close> to
  \<open>b\<close>, \<^verbatim>\<open>choice(xs)\<close> on the positions of \<open>xs\<close>; every outcome is reached by some stream.
\<close>

type_synonym rng = "nat \<Rightarrow> nat"

definition rng_tail :: "rng \<Rightarrow> rng" where
  "rng_tail g = (\<lambda>n. g (Suc n))"

definition randint :: "int \<Rightarrow> int \<Rightarrow> rng \<Rightarrow> int \<times> rng" where
  "randint a b g = (a + int (g 0 mod nat (b - a + 1)), rng_tail g)"

definition choice :: "'a list \<Rightarrow> rng \<Rightarrow> 'a \<times> rng" where
  "choice xs g = (xs ! (g 0 mod length xs), rng_tail g)"

text \<open>\<^verbatim>\<open>''.join(str(random.randint(0, 9)) for _ in range(k))\<close>\<close>

fun rand_digits :: "nat \<Rightarrow> rng \<Rightarrow> string \<times> rng" where
  "rand_digits 0 g = ([], g)"
| "rand_digits (Suc k) g =
     (case randint 0 9 g of (d, g1) \<Rightarrow>
        (case rand_digits k g1 of (ds, g2) \<Rightarrow> (str_int d @ ds, g2)))"

text \<open>
  \<^verbatim>\<open>list(set(xs))\<close> lists each element of \<open>xs\<close> once, in an order the language leaves open
  (it follows the elements' hash values).  The order is a parameter: a ranking \<open>h\<close> of the
  strings; every listing of the set without repetition is the result for some ranking.
\<close>

definition list_set :: "(string \<Rightarrow> nat) \<Rightarrow> string list \<Rightarrow> string list" where
  "list_set h xs = sort_key h (remdups xs)"

section \<open>Equipment identifiers\<close>

definition MAX_CALCULATIONS :: int where
  "MAX_CALCULATIONS = 100"

definition tac_db :: "string list" where
  "tac_db = [''35'', ''01'', ''86'']"

text \<open>
  The loop over \<^verbatim>\<open>enumerate(base_imei)\<close>: \<open>i\<close> is the index, the third argument the
  running \<^verbatim>\<open>total\<close>.
\<close>

fun luhn_total :: "nat \<Rightarrow> string \<Rightarrow> int \<Rightarrow> error + int" where
  "luhn_total i [] tot = Inr tot"
| "luhn_total i (digit # rest) tot =
     (case py_int (PStr [digit]) of
        Inl e \<Rightarrow> Inl e
      | Inr d \<Rightarrow>
          luhn_total (Suc i) rest
            (tot + (if i mod 2 = 0 then (if d * 2 > 9 then d * 2 - 9 else d * 2) else d)))"

definition check_digit :: "string \<Rightarrow> error + int" where
  "check_digit base_imei =
     (case luhn_total 0 base_imei 0 of
        Inl e \<Rightarrow> Inl e
      | Inr tot \<Rightarrow> Inr ((10 - (tot mod 10)) mod 10))"

definition imei_step :: "rng \<Rightarrow> error + (string \<times> rng)" where
  "imei_step g =
     (case choice tac_db g of (tac, g1) \<Rightarrow>
        (case rand_digits 12 g1 of (serial, g2) \<Rightarrow>
           (case check_digit (tac @ serial) of
              Inl e \<Rightarrow> Inl e
            | Inr cd \<Rightarrow> Inr (tac @ serial @ str_int cd, g2))))"

fun imei_loop :: "nat \<Rightarrow> rng \<Rightarrow> string list \<Rightarrow> error + string list" where
  "imei_loop 0 g imeis = Inr imeis"
| "imei_loop (Suc n) g imeis =
     (case imei_step g of
        Inl e \<Rightarrow> Inl e
      | Inr (imei, g') \<Rightarrow> imei_loop n g' (imeis @ [imei]))"

definition calculate_possible_imeis :: "rng \<Rightarrow> int \<Rightarrow> error + string list" where
  "calculate_possible_imeis g count = imei_loop (nat (min count MAX_CALCULATIONS)) g []"

section \<open>SHA-256\<close>

text \<open>
  \<^verbatim>\<open>hashlib.sha256(data).hexdigest()\<close> as FIPS 180-4 defines it, on 32-bit words: padding,
  the message schedule, 64 rounds per 512-bit block, and the digest written as 64
  lowercase hexadecimal digits.
\<close>

definition rotr :: "nat \<Rightarrow> 32 word \<Rightarrow> 32 word" where
  "rotr n w = (drop_bit n w) OR (push_bit (32 - n) w)"

text \<open>The round constants, eight to a row as the standard tabulates them.\<close>

definition sha256_K :: "32 word list" where
  "sha256_K = concat [
    [0x428a2f98, 0x71374491, 0xb5c0fbcf, 0xe9b5dba5, 0x3956c25b, 0x59f111f1, 0x923f82a4, 0xab1c5ed5],
    [0xd807aa98, 0x12835b01, 0x243185be, 0x550c7dc3, 0x72be5d74, 0x80deb1fe, 0x9bdc06a7, 0xc19bf174],
    [0xe49b69c1, 0xefbe4786, 0x0fc19dc6, 0x240ca1cc, 0x2de92c6f, 0x4a7484aa, 0x5cb0a9dc, 0x76f988da],
    [0x983e5152, 0xa831c66d, 0xb00327c8, 0xbf597fc7, 0xc6e00bf3, 0xd5a79147, 0x06ca6351, 0x14292967],
    [0x27b70a85, 0x2e1b2138, 0x4d2c6dfc, 0x53380d13, 0x650a7354, 0x766a0abb, 0x81c2c92e, 0x92722c85],
    [0xa2bfe8a1, 0xa81a664b, 0xc24b8b70, 0xc76c51a3, 0xd192e819, 0xd6990624, 0xf40e3585, 0x106aa070],
    [0x19a4c116, 0x1e376c08, 0x2748774c, 0x34b0bcb5, 0x391c0cb3, 0x4ed8aa4a, 0x5b9cca4f, 0x682e6ff3],
    [0x748f82ee, 0x78a5636f, 0x84c87814, 0x8cc70208, 0x90befffa, 0xa4506ceb, 0xbef9a3f7, 0xc67178f2]]"

type_synonym sha_state =
  "32 word \<times> 32 word \<times> 32 word \<times> 32 word \<times> 32 word \<times> 32 word \<times> 32 word \<times> 32 word"

definition sha256_H0 :: sha_state where
  "sha256_H0 = (0x6a09e667, 0xbb67ae85, 0x3c6ef372, 0xa54ff53a,
                0x510e527f, 0x9b05688c, 0x1f83d9ab, 0x5be0cd19)"

definition sha256_pad :: "nat list \<Rightarrow> nat list" where
  "sha256_pad bs =
     (let l = length bs in
      bs @ [128] @ replicate ((119 - l mod 64) mod 64) 0
         @ map (\<lambda>i. (8 * l) div 256 ^ (7 - i) mod 256) [0 ..< 8])"

fun be_words :: "nat list \<Rightarrow> 32 word list" where
  "be_words (a # b # c # d # bs) =
     of_nat (((a * 256 + b) * 256 + c) * 256 + d) # be_words bs"
| "be_words _ = []"

fun expand :: "nat \<Rightarrow> 32 word list \<Rightarrow> 32 word list" where
  "expand 0 w = w"
| "expand (Suc n) w =
     (let t = length w;
          x = w ! (t - 15); y = w ! (t - 2);
          s0 = rotr 7 x XOR rotr 18 x XOR drop_bit 3 x;
          s1 = rotr 17 y XOR rotr 19 y XOR drop_bit 10 y
      in expand n (w @ [s1 + w ! (t - 7) + s0 + w ! (t - 16)]))"

fun sha256_round :: "32 word \<times> 32 word \<Rightarrow> sha_state \<Rightarrow> sha_state" where
  "sha256_round (k, w) (a, b, c, d, e, f, g, h) =
     (let t1 = h + (rotr 6 e XOR rotr 11 e XOR rotr 25 e)
                 + ((e AND f) XOR (NOT e AND g)) + k + w;
          t2 = (rotr 2 a XOR rotr 13 a XOR rotr 22 a)
                 + ((a AND b) XOR (a AND c) XOR (b AND c))
      in (t1 + t2, a, b, c, d + t1, e, f, g))"

fun add_state :: "sha_state \<Rightarrow> sha_state \<Rightarrow> sha_state" where
  "add_state (a, b, c, d, e, f, g, h) (a', b', c', d', e', f', g', h') =
     (a + a', b + b', c + c', d + d', e + e', f + f', g + g', h + h')"

definition sha256_block :: "sha_state \<Rightarrow> 32 word list \<Rightarrow> sha_state" where
  "sha256_block hs ws =
     add_state hs (fold sha256_round (zip sha256_K (expand 48 ws)) hs)"

fun sha256_blocks :: "sha_state \<Rightarrow> 32 word list \<Rightarrow> sha_state" where
  "sha256_blocks hs ws =
     (if length ws < 16 then hs
      else sha256_blocks (sha256_block hs (take 16 ws)) (drop 16 ws))"

declare sha256_blocks.simps [simp del]

definition hex_chars :: string where
  "hex_chars = ''0123456789abcdef''"

definition hex_digit :: "nat \<Rightarrow> char" where
  "hex_digit n = hex_chars ! (n mod 16)"

definition hex_word :: "32 word \<Rightarrow> string" where
  "hex_word w = map (\<lambda>i. hex_digit (unat (drop_bit (4 * (7 - i)) w))) [0 ..< 8]"

fun state_words :: "sha_state \<Rightarrow> 32 word list" where
  "state_words (a, b, c, d, e, f, g, h) = [a, b, c, d, e, f, g, h]"

definition sha256_hexdigest :: "nat list \<Rightarrow> string" where
  "sha256_hexdigest bs =
     concat (map hex_word (state_words (sha256_blocks sha256_H0 (be_words (sha256_pad bs)))))"

definition utf8_encode :: "string \<Rightarrow> nat list" where
  \<comment> \<open>\<^verbatim>\<open>str.encode()\<close>: one byte below 128, two bytes from 128 to 255\<close>
  "utf8_encode s =
     concat (map (\<lambda>c. let n = of_char c in
                        if n < 128 then [n] else [192 + n div 64, 128 + n mod 64]) s)"

section \<open>Subscriber identifiers\<close>

definition dict_get :: "(string \<rightharpoonup> pyval) \<Rightarrow> string \<Rightarrow> pyval \<Rightarrow> pyval" where
  \<comment> \<open>\<^verbatim>\<open>d.get(key, default)\<close>\<close>
  "dict_get d key dflt = (case d key of None \<Rightarrow> dflt | Some v \<Rightarrow> v)"

definition add_str :: "pyval \<Rightarrow> string \<Rightarrow> error + string" where
  \<comment> \<open>\<^verbatim>\<open>x + s\<close> for a string \<open>s\<close>\<close>
  "add_str x s = (case x of PStr a \<Rightarrow> Inr (a @ s) | PInt _ \<Rightarrow> Inl TypeError)"

text \<open>
  The three assignments of one loop iteration.  In \<^verbatim>\<open>mcc + mnc + e\<close> the sum
  \<^verbatim>\<open>mcc + mnc\<close> is computed before \<open>e\<close> is evaluated.
\<close>

definition sha_imsi :: "pyval \<Rightarrow> pyval \<Rightarrow> pyval \<Rightarrow> string \<Rightarrow> string \<Rightarrow> nat \<Rightarrow> error + string" where
  "sha_imsi mcc mnc tac pci ci i =
     (let hash_str = utf8_encode (py_str mcc @ py_str mnc @ py_str tac @ pci @ ci @ str_int (int i))
      in case py_add mcc mnc of
           Inl e \<Rightarrow> Inl e
         | Inr mm \<Rightarrow> add_str mm (take 10 (sha256_hexdigest hash_str)))"

definition math_imsi :: "pyval \<Rightarrow> pyval \<Rightarrow> pyval \<Rightarrow> string \<Rightarrow> string \<Rightarrow> error + string" where
  "math_imsi mcc mnc tac pci ci =
     (case py_add mcc mnc of
        Inl e \<Rightarrow> Inl e
      | Inr mm \<Rightarrow>
          (case py_int tac of
             Inl e \<Rightarrow> Inl e
           | Inr t \<Rightarrow>
               (case py_int (PStr pci) of
                  Inl e \<Rightarrow> Inl e
                | Inr p \<Rightarrow>
                    (case py_int (PStr ci) of
                       Inl e \<Rightarrow> Inl e
                     | Inr c \<Rightarrow> add_str mm (zfill 10 (str_int (t * p * c mod 1000000000)))))))"

definition rand_imsi :: "pyval \<Rightarrow> pyval \<Rightarrow> rng \<Rightarrow> error + (string \<times> rng)" where
  "rand_imsi mcc mnc g =
     (case py_add mcc mnc of
        Inl e \<Rightarrow> Inl e
      | Inr mm \<Rightarrow>
          (case rand_digits 10 g of (ds, g') \<Rightarrow>
             (case add_str mm ds of Inl e \<Rightarrow> Inl e | Inr s \<Rightarrow> Inr (s, g'))))"

text \<open>
  The loop \<^verbatim>\<open>for i in range(min(count, MAX_CALCULATIONS))\<close>: \<open>i\<close> is the index, \<open>n\<close> the
  number of iterations left, the last argument \<^verbatim>\<open>possible_imsis\<close>.
\<close>

fun imsi_loop ::
  "pyval \<Rightarrow> pyval \<Rightarrow> pyval \<Rightarrow> string \<Rightarrow> string \<Rightarrow> nat \<Rightarrow> nat \<Rightarrow> rng \<Rightarrow> string list \<Rightarrow> error + string list"
where
  "imsi_loop mcc mnc tac pci ci i 0 g imsis = Inr imsis"
| "imsi_loop mcc mnc tac pci ci i (Suc n) g imsis =
     (case sha_imsi mcc mnc tac pci ci i of
        Inl e \<Rightarrow> Inl e
      | Inr s \<Rightarrow>
          (case math_imsi mcc mnc tac pci ci of
             Inl e \<Rightarrow> Inl e
           | Inr m \<Rightarrow>
               (case rand_imsi mcc mnc g of
                  Inl e \<Rightarrow> Inl e
                | Inr (r, g') \<Rightarrow> imsi_loop mcc mnc tac pci ci (Suc i) n g' (imsis @ [s, m, r]))))"

definition calculate_possible_imsis ::
  "(string \<rightharpoonup> pyval) \<Rightarrow> rng \<Rightarrow> (string \<Rightarrow> nat) \<Rightarrow> int \<Rightarrow> error + string list"
where
  "calculate_possible_imsis device_data g h count =
     (let mcc = dict_get device_data ''mcc'' (PStr ''310'');
          mnc = dict_get device_data ''mnc'' (PStr ''260'');
          tac = dict_get device_data ''tac'' (PStr ''0000'');
          pci = py_str (dict_get device_data ''pci'' (PStr ''0''));
          ci = py_str (dict_get device_data ''ci'' (PStr ''0''))
      in case imsi_loop mcc mnc tac pci ci 0 (nat (min count MAX_CALCULATIONS)) g [] of
           Inl e \<Rightarrow> Inl e
         | Inr possible_imsis \<Rightarrow> Inr (slice_to count (list_set h possible_imsis)))"

text \<open>The values of the local variables \<^verbatim>\<open>mcc\<close>, \<^verbatim>\<open>mnc\<close>, \<^verbatim>\<open>tac\<close>, \<^verbatim>\<open>pci\<close> and \<^verbatim>\<open>ci\<close>.\<close>

definition base_mcc :: "(string \<rightharpoonup> pyval) \<Rightarrow> pyval" where
  "base_mcc device_data = dict_get device_data ''mcc'' (PStr ''310'')"

definition base_mnc :: "(string \<rightharpoonup> pyval) \<Rightarrow> pyval" where
  "base_mnc device_data = dict_get device_data ''mnc'' (PStr ''260'')"

definition base_tac :: "(string \<rightharpoonup> pyval) \<Rightarrow> pyval" where
  "base_tac device_data = dict_get device_data ''tac'' (PStr ''0000'')"

definition base_pci :: "(string \<rightharpoonup> pyval) \<Rightarrow> string" where
  "base_pci device_data = py_str (dict_get device_data ''pci'' (PStr ''0''))"

definition base_ci :: "(string \<rightharpoonup> pyval) \<Rightarrow> string" where
  "base_ci device_data = py_str (dict_get device_data ''ci'' (PStr ''0''))"

text \<open>The ranking that lists the string \<open>x\<close> first.\<close>

definition rank_first :: "string \<Rightarrow> string \<Rightarrow> nat" where
  "rank_first x s = (if s = x then 0 else 1)"



text \<open>
  The shape of a candidate: the text \<open>p\<close> followed by exactly ten characters of the
  class \<open>cls\<close>.
\<close>

definition py_ishex :: "char \<Rightarrow> bool" where
  "py_ishex c = (c \<in> set hex_chars)"

definition imsi_shape :: "string \<Rightarrow> (char \<Rightarrow> bool) \<Rightarrow> string \<Rightarrow> bool" where
  "imsi_shape p cls s =
     (take (length p) s = p \<and> length s = length p + 10 \<and> list_all cls (drop (length p) s))"

text \<open>
  Luhn validation as the identifier standards define it (the checksum the docstring of
  \<^verbatim>\<open>calculate_possible_imeis\<close> and the specification name): counted from the last digit,
  every second digit is doubled, nine is subtracted from a double above nine, and the sum
  of all digits is a multiple of ten.  This definition follows the standard, not the
  source.
\<close>

definition luhn_double :: "nat \<Rightarrow> nat" where
  "luhn_double d = (if d * 2 > 9 then d * 2 - 9 else d * 2)"

fun luhn_sum :: "string \<Rightarrow> nat" where
  "luhn_sum [] = 0"
| "luhn_sum [c] = digit_val c"
| "luhn_sum (c # d # r) = digit_val c + luhn_double (digit_val d) + luhn_sum r"

definition luhn_valid :: "string \<Rightarrow> bool" where
  "luhn_valid s = (list_all py_isdigit s \<and> luhn_sum (rev s) mod 10 = 0)"

section \<open>Regular expressions\<close>

text \<open>
  The patterns of \<^verbatim>\<open>parse_report_content\<close> are sequences of five kinds of items: literal
  text, a character class repeated greedily (\<^verbatim>\<open>c*\<close>, \<^verbatim>\<open>c+\<close>) or lazily (\<^verbatim>\<open>c+?\<close>), and
  an optional character (\<^verbatim>\<open>x?\<close>).  A capture group is a run of consecutive items.
\<close>

datatype atom =
    Lit string
  | Many "char \<Rightarrow> bool"
  | Many1 "char \<Rightarrow> bool"
  | Few1 "char \<Rightarrow> bool"
  | Maybe char

definition dot :: "char \<Rightarrow> bool" where
  \<comment> \<open>\<^verbatim>\<open>.\<close>: any character but the line feed\<close>
  "dot c = (c \<noteq> CHR 0x0A)"

definition dot_all :: "char \<Rightarrow> bool" where
  \<comment> \<open>\<^verbatim>\<open>.\<close> under \<^verbatim>\<open>re.DOTALL\<close>\<close>
  "dot_all c = True"

text \<open>
  The lengths an item may consume at the head of \<open>s\<close>, in the order the backtracking
  matcher tries them: longest first for a greedy item, shortest first for a lazy one.
\<close>

fun choices :: "atom \<Rightarrow> string \<Rightarrow> nat list" where
  "choices (Lit l) s = (if take (length l) s = l then [length l] else [])"
| "choices (Many p) s = rev [0 ..< Suc (length (takeWhile p s))]"
| "choices (Many1 p) s = rev [1 ..< Suc (length (takeWhile p s))]"
| "choices (Few1 p) s = [1 ..< Suc (length (takeWhile p s))]"
| "choices (Maybe c) s = (case s of [] \<Rightarrow> [0] | x # _ \<Rightarrow> if x = c then [1, 0] else [0])"

fun try_each :: "(nat \<Rightarrow> 'a option) \<Rightarrow> nat list \<Rightarrow> 'a option" where
  "try_each f [] = None"
| "try_each f (k # ks) = (case f k of Some r \<Rightarrow> Some r | None \<Rightarrow> try_each f ks)"

text \<open>
  \<^verbatim>\<open>pattern.match\<close> at the head of \<open>s\<close>: the text each item consumed in the first
  successful alternative, or \<open>None\<close>.
\<close>

primrec rmatch :: "atom list \<Rightarrow> string \<Rightarrow> string list option" where
  "rmatch [] s = Some []"
| "rmatch (a # rs) s =
     try_each (\<lambda>k. map_option (\<lambda>ms. take k s # ms) (rmatch rs (drop k s))) (choices a s)"

text \<open>\<^verbatim>\<open>re.search\<close>: the match at the leftmost position that has one, and the text after it.\<close>

fun search :: "atom list \<Rightarrow> string \<Rightarrow> (string list \<times> string) option" where
  "search rs [] = (case rmatch rs [] of Some ms \<Rightarrow> Some (ms, []) | None \<Rightarrow> None)"
| "search rs (c # t) =
     (case rmatch rs (c # t) of
        Some ms \<Rightarrow> Some (ms, drop (length (concat ms)) (c # t))
      | None \<Rightarrow> search rs t)"

text \<open>
  \<^verbatim>\<open>re.findall\<close>: the matches from left to right, each search starting where the previous
  match ended.  Every pattern of the source holds a literal, so a match is never empty and
  the remaining text gets shorter; the guard only serves the termination argument
  (\<open>findall_lte\<close> and \<open>findall_wifi\<close> below state the two scans without it).
\<close>

fun findall :: "atom list \<Rightarrow> string \<Rightarrow> string list list" where
  "findall rs s =
     (case search rs s of
        None \<Rightarrow> []
      | Some (ms, rest) \<Rightarrow> ms # (if length rest < length s then findall rs rest else []))"

declare findall.simps [simp del]

definition grp :: "nat \<Rightarrow> nat \<Rightarrow> string list \<Rightarrow> string" where
  \<comment> \<open>the text of the group made of the items \<open>i, ..., j - 1\<close>\<close>
  "grp i j ms = concat (take (j - i) (drop i ms))"

section \<open>The report parser\<close>

record network =
  ssid :: string
  rssi :: int
  channel :: int

record wifi =
  networks :: "network list"

record report_data =
  device_info :: "string \<rightharpoonup> string"
  permissions :: "string \<rightharpoonup> bool"
  sim_info :: "string \<rightharpoonup> string"
  wifi_info :: wifi
  cell_info :: "string \<rightharpoonup> pyval"
  timestamp :: string

definition device_rx :: "atom list" where
  \<comment> \<open>\<^verbatim>\<open>Device:\s*(.+?)\s*-\s*(.+)\<close>\<close>
  "device_rx = [Lit ''Device:'', Many py_isspace, Few1 dot, Many py_isspace, Lit ''-'',
                Many py_isspace, Many1 dot]"

definition android_rx :: "atom list" where
  \<comment> \<open>\<^verbatim>\<open>Android:\s*(.+?)\s*\(\<close>\<close>
  "android_rx = [Lit ''Android:'', Many py_isspace, Few1 dot, Many py_isspace, Lit ''('']"

definition perm_rx :: "string \<Rightarrow> atom list" where
  \<comment> \<open>\<^verbatim>\<open>label\s*:\s*(\w+)\<close>\<close>
  "perm_rx label = [Lit label, Many py_isspace, Lit '':'', Many py_isspace, Many1 py_isword]"

definition perm_keys :: "string list" where
  "perm_keys = [''location_enabled'', ''course_location'', ''fine_location'',
                ''background_location'', ''phone_state'', ''write_access'', ''wifi_state'']"

definition perm_patterns :: "atom list list" where
  "perm_patterns = [perm_rx ''Is Location Enabled'', perm_rx ''Course Location access'',
                    perm_rx ''Fine Location access'', perm_rx ''Background Location access'',
                    perm_rx ''Phone State access'', perm_rx ''Write access'',
                    perm_rx ''WiFi State access'']"

definition sim_rx :: "atom list" where
  \<comment> \<open>\<^verbatim>\<open>SIM\(tm\):\s*(\w+),\s*(\d+),\<close>\<close>
  "sim_rx = [Lit ''SIM(tm):'', Many py_isspace, Many1 py_isword, Lit '','', Many py_isspace,
             Many1 py_isdigit, Lit '','']"

definition wifi_rx :: "atom list" where
  \<comment> \<open>\<^verbatim>\<open>SSID:\s*(.+?)\n.+?RSSI:\s*(-?\d+).+?channel:\s*(\d+)\<close> with \<^verbatim>\<open>re.DOTALL\<close>\<close>
  "wifi_rx = [Lit ''SSID:'', Many py_isspace, Few1 dot_all, Lit [CHR 0x0A], Few1 dot_all,
              Lit ''RSSI:'', Many py_isspace, Maybe CHR ''-'', Many1 py_isdigit, Few1 dot_all,
              Lit ''channel:'', Many py_isspace, Many1 py_isdigit]"

definition cell_rx :: "atom list" where
  \<comment> \<open>\<^verbatim>\<open>-- getCellLocation\s*=\s*(.+)\<close>\<close>
  "cell_rx = [Lit ''-- getCellLocation'', Many py_isspace, Lit ''='', Many py_isspace, Many1 dot]"

definition lte_rx :: "atom list" where
  \<comment> \<open>\<^verbatim>\<open>(\w+)\s*:\s*(-?\d+)\<close>\<close>
  "lte_rx = [Many1 py_isword, Many py_isspace, Lit '':'', Many py_isspace, Maybe CHR ''-'',
             Many1 py_isdigit]"

definition lte_names :: "string list" where
  "lte_names = [''mcc'', ''mnc'', ''tac'', ''pci'', ''rsrp'', ''rsrq'', ''rssnr'', ''band'',
                ''cid'', ''nid'', ''asu'', ''power'']"

definition perm_flag :: "string \<Rightarrow> bool" where
  \<comment> \<open>\<^verbatim>\<open>match.group(1).lower() == "true"\<close>\<close>
  "perm_flag token = (py_lower token = ''true'')"

definition perm_step :: "string \<Rightarrow> string \<times> atom list \<Rightarrow> (string \<rightharpoonup> bool) \<Rightarrow> (string \<rightharpoonup> bool)" where
  "perm_step content kp perms =
     (case search (snd kp) content of
        None \<Rightarrow> perms
      | Some (ms, _) \<Rightarrow> perms(fst kp \<mapsto> perm_flag (ms ! 4)))"

text \<open>The loop over \<^verbatim>\<open>wifi_sections\<close>; the groups are items 2, 7 to 8 and 12 of \<open>wifi_rx\<close>.\<close>

fun wifi_loop :: "string list list \<Rightarrow> network list \<Rightarrow> error + network list" where
  "wifi_loop [] nets = Inr nets"
| "wifi_loop (ms # rest) nets =
     (case py_int (PStr (grp 7 9 ms)) of
        Inl e \<Rightarrow> Inl e
      | Inr r \<Rightarrow>
          (case py_int (PStr (ms ! 12)) of
             Inl e \<Rightarrow> Inl e
           | Inr c \<Rightarrow> wifi_loop rest (nets @ [\<lparr>ssid = ms ! 2, rssi = r, channel = c\<rparr>])))"

text \<open>The loop over \<^verbatim>\<open>lte_params\<close>; the groups are item 0 and items 4 to 5 of \<open>lte_rx\<close>.\<close>

fun lte_loop :: "string list list \<Rightarrow> (string \<rightharpoonup> pyval) \<Rightarrow> error + (string \<rightharpoonup> pyval)" where
  "lte_loop [] cell = Inr cell"
| "lte_loop (ms # rest) cell =
     (if py_lower (ms ! 0) \<in> set lte_names then
        (case py_int (PStr (grp 4 6 ms)) of
           Inl e \<Rightarrow> Inl e
         | Inr v \<Rightarrow> lte_loop rest (cell(py_lower (ms ! 0) \<mapsto> PInt v)))
      else lte_loop rest cell)"

text \<open>
  \<^verbatim>\<open>parse_report_content\<close>.  The first argument is what \<^verbatim>\<open>datetime.now().isoformat()\<close>
  returns at the call.
\<close>

definition parse_report_content :: "string \<Rightarrow> string \<Rightarrow> error + report_data" where
  "parse_report_content now content =
     (let dev1 = (case search device_rx content of
                    None \<Rightarrow> Map.empty
                  | Some (ms, _) \<Rightarrow> [''model'' \<mapsto> ms ! 2, ''hardware'' \<mapsto> ms ! 6]);
          dev2 = (case search android_rx content of
                    None \<Rightarrow> dev1
                  | Some (ms, _) \<Rightarrow> dev1(''android_version'' \<mapsto> ms ! 2));
          perms = fold (perm_step content) (zip perm_keys perm_patterns) Map.empty;
          sim = (case search sim_rx content of
                   None \<Rightarrow> Map.empty
                 | Some (ms, _) \<Rightarrow> [''operator'' \<mapsto> ms ! 2, ''mccmnc'' \<mapsto> ms ! 5])
      in case wifi_loop (findall wifi_rx content) [] of
           Inl e \<Rightarrow> Inl e
         | Inr nets \<Rightarrow>
             (let cell1 = (case search cell_rx content of
                             None \<Rightarrow> Map.empty
                           | Some (ms, _) \<Rightarrow> [''location'' \<mapsto> PStr (ms ! 4)])
              in case lte_loop (findall lte_rx content) cell1 of
                   Inl e \<Rightarrow> Inl e
                 | Inr cell \<Rightarrow>
                     Inr \<lparr>device_info = dev2, permissions = perms, sim_info = sim,
                          wifi_info = \<lparr>networks = nets\<rparr>, cell_info = cell,
                          timestamp = now\<rparr>))"

text \<open>What an item of a pattern can consume: the yardstick for the matcher's results.\<close>

fun atom_ok :: "atom \<Rightarrow> string \<Rightarrow> bool" where
  "atom_ok (Lit l) m = (m = l)"
| "atom_ok (Many p) m = list_all p m"
| "atom_ok (Many1 p) m = (m \<noteq> [] \<and> list_all p m)"
| "atom_ok (Few1 p) m = (m \<noteq> [] \<and> list_all p m)"
| "atom_ok (Maybe c) m = (m = [] \<or> m = [c])"




section \<open>Auxiliary facts\<close>

subsection \<open>Digits and the equipment identifiers\<close>

lemma digit_not_space: "py_isdigit c \<Longrightarrow> \<not> py_isspace c"
  by (auto simp: py_isdigit_def digit_chars_def py_isspace_def space_chars_def)

lemma digit_val_lt: "py_isdigit c \<Longrightarrow> digit_val c < 10"
  by (auto simp: py_isdigit_def digit_chars_def digit_val_def)

lemma py_int_digit: "py_isdigit c \<Longrightarrow> py_int (PStr [c]) = Inr (int (digit_val c))"
  by (auto simp: py_int_def int_str_def py_strip_def digit_not_space py_isdigit_def digit_chars_def)

lemma luhn_total_digits:
  "list_all py_isdigit s \<Longrightarrow> \<exists>t. luhn_total i s tot = Inr t"
  by (induction s arbitrary: i tot) (auto simp: py_int_digit)

lemma check_digit_digits:
  "list_all py_isdigit s \<Longrightarrow> \<exists>cd. check_digit s = Inr cd \<and> 0 \<le> cd \<and> cd < 10"
  using luhn_total_digits[of s 0 0] by (auto simp: check_digit_def)

lemma digit_char_isdigit: "py_isdigit (digit_char n)"
proof -
  have "n mod 10 < 10" by simp
  then have "n mod 10 = 0 \<or> n mod 10 = 1 \<or> n mod 10 = 2 \<or> n mod 10 = 3 \<or> n mod 10 = 4 \<or>
             n mod 10 = 5 \<or> n mod 10 = 6 \<or> n mod 10 = 7 \<or> n mod 10 = 8 \<or> n mod 10 = 9"
    by arith
  then show ?thesis
    unfolding digit_char_def digit_chars_def py_isdigit_def
    by (elim disjE) simp_all
qed

lemma str_int_digit: "0 \<le> d \<Longrightarrow> d < 10 \<Longrightarrow> str_int d = [digit_char (nat d)]"
  by (simp add: str_int_def str_nat.simps)

lemma rand_digits_ok:
  "rand_digits k g = (ds, g') \<Longrightarrow> length ds = k \<and> list_all py_isdigit ds"
proof (induction k arbitrary: g ds g')
  case 0
  then show ?case by simp
next
  case (Suc k)
  obtain d g1 where r: "randint 0 9 g = (d, g1)" by (cases "randint 0 9 g")
  obtain ds' g2 where r2: "rand_digits k g1 = (ds', g2)" by (cases "rand_digits k g1")
  have d: "0 \<le> d \<and> d < 10" using r by (auto simp: randint_def)
  from Suc.prems r r2 have ds: "ds = str_int d @ ds'" by simp
  from Suc.IH[OF r2] d show ?case
    by (simp add: ds str_int_digit digit_char_isdigit)
qed

lemma tac_db_ok:
  assumes "choice tac_db g = (tac, g')"
  shows "length tac = 2 \<and> list_all py_isdigit tac"
proof -
  have "g 0 mod 3 = 0 \<or> g 0 mod 3 = 1 \<or> g 0 mod 3 = 2" by arith
  with assms show ?thesis
    by (auto simp: choice_def tac_db_def py_isdigit_def digit_chars_def)
qed



subsection \<open>The output of SHA-256\<close>

lemma hex_digit_in: "hex_digit n \<in> set hex_chars"
  unfolding hex_digit_def by (rule nth_mem) (simp add: hex_chars_def)

lemma hex_word_ok: "length (hex_word w) = 8 \<and> set (hex_word w) \<subseteq> set hex_chars"
  using hex_digit_in by (auto simp: hex_word_def)

lemma length_concat_hex: "length (concat (map hex_word ws)) = 8 * length ws"
  by (induction ws) (auto simp: hex_word_ok)

lemma set_concat_hex: "set (concat (map hex_word ws)) \<subseteq> set hex_chars"
  using hex_word_ok by (induction ws) auto

lemma length_state_words: "length (state_words s) = 8"
  by (cases s rule: state_words.cases) simp

lemma sha256_hexdigest_ok:
  "length (sha256_hexdigest bs) = 64 \<and> set (sha256_hexdigest bs) \<subseteq> set hex_chars"
  unfolding sha256_hexdigest_def
  using set_concat_hex by (simp add: length_concat_hex length_state_words)

subsection \<open>Decimal strings and zero padding\<close>

lemma str_nat_digits: "list_all py_isdigit (str_nat n)"
proof (induction n rule: str_nat.induct)
  case (1 n)
  show ?case
  proof (cases "n < 10")
    case True
    then show ?thesis by (subst str_nat.simps) (simp add: digit_char_isdigit)
  next
    case False
    from 1[OF False] show ?thesis
      using False by (subst str_nat.simps) (simp add: digit_char_isdigit)
  qed
qed

lemma str_nat_length: "n < 10 ^ k \<Longrightarrow> 0 < k \<Longrightarrow> length (str_nat n) \<le> k"
proof (induction n arbitrary: k rule: str_nat.induct)
  case (1 n)
  show ?case
  proof (cases "n < 10")
    case True
    with 1(3) show ?thesis by (subst str_nat.simps) simp
  next
    case False
    then obtain j where k: "k = Suc j" using 1(3) by (cases k) auto
    from False 1(2) k have j: "0 < j" by (cases j) auto
    from 1(2) k have "n div 10 < 10 ^ j" by (simp add: less_mult_imp_div_less mult.commute)
    from 1(1)[OF False this j] show ?thesis
      using False k by (subst str_nat.simps) simp
  qed
qed

lemma str_nat_nonempty: "str_nat n \<noteq> []"
  by (subst str_nat.simps) simp

lemma hex_chars_digits: "hex_chars = digit_chars @ ''abcdef''"
  by (simp add: hex_chars_def digit_chars_def)

lemma digit_is_hex: "py_isdigit c \<Longrightarrow> c \<in> set hex_chars"
  unfolding py_isdigit_def hex_chars_digits by simp

lemma digits_hex: "list_all py_isdigit s \<Longrightarrow> set s \<subseteq> set hex_chars"
  using digit_is_hex by (induction s) simp_all

lemma zfill_digits:
  assumes "list_all py_isdigit s" "s \<noteq> []" "length s \<le> w"
  shows "length (zfill w s) = w \<and> list_all py_isdigit (zfill w s)"
proof -
  obtain c cs where s: "s = c # cs" using assms(2) by (cases s) auto
  with assms(1) have "py_isdigit c" by simp
  then have ns: "c \<noteq> CHR ''+'' \<and> c \<noteq> CHR ''-''" by (auto simp: py_isdigit_def digit_chars_def)
  have z: "zfill w s = replicate (w - length s) CHR ''0'' @ s"
    using s ns by (simp add: zfill_def Let_def)
  have zero: "py_isdigit CHR ''0''" by (simp add: py_isdigit_def digit_chars_def)
  show ?thesis
    using assms zero by (auto simp: z list_all_iff)
qed

lemma zfill_mod:
  fixes x :: int
  shows "length (zfill 10 (str_int (x mod 1000000000))) = 10 \<and>
         list_all py_isdigit (zfill 10 (str_int (x mod 1000000000)))"
proof -
  have nonneg: "\<not> x mod 1000000000 < 0" by simp
  have "nat (x mod 1000000000) < 10 ^ 9" by simp
  then have "length (str_nat (nat (x mod 1000000000))) \<le> 9" by (rule str_nat_length) simp
  then have len: "length (str_nat (nat (x mod 1000000000))) \<le> 10" by simp
  have s: "str_int (x mod 1000000000) = str_nat (nat (x mod 1000000000))"
    using nonneg by (simp add: str_int_def)
  show ?thesis
    unfolding s by (rule zfill_digits[OF str_nat_digits str_nat_nonempty len])
qed

subsection \<open>Listing a set, slicing a list\<close>

lemma set_list_set: "set (list_set h xs) = set xs"
  by (simp add: list_set_def)

lemma distinct_list_set: "distinct (list_set h xs)"
  by (simp add: list_set_def)

lemma set_slice_to: "set (slice_to c xs) \<subseteq> set xs"
  by (auto simp: slice_to_def dest: in_set_takeD)

lemma length_slice_to: "length (slice_to c xs) \<le> nat c \<or> c < 0"
  by (simp add: slice_to_def)


lemma hd_sort_key_min:
  fixes h :: "'a \<Rightarrow> nat"
  assumes "x \<in> set xs" and "h x = 0" and "\<And>y. y \<in> set xs \<Longrightarrow> h y = 0 \<Longrightarrow> y = x"
  shows "take 1 (sort_key h xs) = [x]"
proof -
  have x: "x \<in> set (sort_key h xs)" using assms(1) by simp
  then obtain z zs where zs: "sort_key h xs = z # zs" by (cases "sort_key h xs") auto
  have "sorted (map h (sort_key h xs))" by (rule sorted_sort_key)
  with zs have le: "\<forall>y \<in> set zs. h z \<le> h y" by simp
  have "h z = 0"
  proof (cases "x = z")
    case True
    then show ?thesis using assms(2) by simp
  next
    case False
    with x zs have "x \<in> set zs" by simp
    with le assms(2) show ?thesis by force
  qed
  moreover have "z \<in> set xs" using zs by (metis list.set_intros(1) set_sort)
  ultimately have "z = x" using assms(3) by blast
  then show ?thesis by (simp add: zs)
qed

lemma take1_rank_first: "x \<in> set xs \<Longrightarrow> take 1 (list_set (rank_first x) xs) = [x]"
  unfolding list_set_def
  by (rule hd_sort_key_min) (simp_all add: rank_first_def split: if_splits)

lemma slice_to_1: "slice_to 1 xs = take 1 xs"
  by (simp add: slice_to_def)

subsection \<open>The three candidates of an iteration\<close>


lemma py_add_cases:
  "(\<exists>p. py_add x y = Inr (PStr p)) \<or> py_add x y = Inl TypeError \<or> (\<exists>n. py_add x y = Inr (PInt n))"
  by (cases x; cases y) (simp_all add: py_add_def)

lemma py_add_error: "py_add x y = Inl e \<Longrightarrow> e = TypeError"
  using py_add_cases[of x y] by auto

lemma imsi_shapeI:
  "length sfx = 10 \<Longrightarrow> list_all cls sfx \<Longrightarrow> imsi_shape p cls (p @ sfx)"
  by (simp add: imsi_shape_def)

lemma imsi_shape_digit_hex: "imsi_shape p py_isdigit s \<Longrightarrow> imsi_shape p py_ishex s"
  using digit_is_hex by (auto simp: imsi_shape_def py_ishex_def list_all_iff)

lemma sha_imsi_ok:
  assumes "py_add mcc mnc = Inr (PStr p)"
  shows "\<exists>s. sha_imsi mcc mnc tac pci ci i = Inr s \<and> imsi_shape p py_ishex s"
proof -
  define d where "d = sha256_hexdigest (utf8_encode (py_str mcc @ py_str mnc @ py_str tac @ pci @ ci @ str_int (int i)))"
  have d: "length d = 64" "set d \<subseteq> set hex_chars"
    unfolding d_def using sha256_hexdigest_ok by blast+
  have "set (take 10 d) \<subseteq> set hex_chars" using d(2) set_take_subset by fastforce
  then have "list_all py_ishex (take 10 d)" by (auto simp: list_all_iff py_ishex_def)
  moreover have "length (take 10 d) = 10" using d(1) by simp
  ultimately have "imsi_shape p py_ishex (p @ take 10 d)" by (intro imsi_shapeI)
  moreover have "sha_imsi mcc mnc tac pci ci i = Inr (p @ take 10 d)"
    using assms by (simp add: sha_imsi_def Let_def add_str_def d_def)
  ultimately show ?thesis by blast
qed

lemma sha_imsi_type_error:
  assumes "\<not> (\<exists>p. py_add mcc mnc = Inr (PStr p))"
  shows "sha_imsi mcc mnc tac pci ci i = Inl TypeError"
  using assms py_add_cases[of mcc mnc]
  by (auto simp: sha_imsi_def Let_def add_str_def)


lemma math_imsi_Inr:
  assumes "py_add mcc mnc = Inr (PStr p)" "math_imsi mcc mnc tac pci ci = Inr s"
  shows "imsi_shape p py_isdigit s"
proof -
  from assms obtain x :: int where "s = p @ zfill 10 (str_int (x mod 1000000000))"
    by (auto simp: math_imsi_def add_str_def split: sum.splits)
  then show ?thesis using zfill_mod[of x] by (simp add: imsi_shapeI)
qed


lemma rand_imsi_ok:
  assumes "py_add mcc mnc = Inr (PStr p)"
  shows "\<exists>r g'. rand_imsi mcc mnc g = Inr (r, g') \<and> imsi_shape p py_isdigit r"
proof -
  obtain ds g' where r: "rand_digits 10 g = (ds, g')" by (cases "rand_digits 10 g")
  from rand_digits_ok[OF r] have "imsi_shape p py_isdigit (p @ ds)" by (simp add: imsi_shapeI)
  moreover have "rand_imsi mcc mnc g = Inr (p @ ds, g')"
    using assms r by (simp add: rand_imsi_def add_str_def)
  ultimately show ?thesis by blast
qed

subsection \<open>The loop of the subscriber identifiers\<close>

lemma imsi_loop_pool:
  assumes add: "py_add mcc mnc = Inr (PStr p)"
  shows "imsi_loop mcc mnc tac pci ci i n g acc = Inr pool \<Longrightarrow> s \<in> set pool \<Longrightarrow>
         s \<in> set acc \<or> imsi_shape p py_isdigit s \<or>
         (imsi_shape p py_ishex s \<and> (\<exists>j. sha_imsi mcc mnc tac pci ci j = Inr s))"
proof (induction n arbitrary: i g acc)
  case 0
  then show ?case by simp
next
  case (Suc n)
  from sha_imsi_ok[OF add, of tac pci ci i] obtain x where
    x: "sha_imsi mcc mnc tac pci ci i = Inr x" "imsi_shape p py_ishex x" by blast
  from Suc.prems(1) x obtain m where m: "math_imsi mcc mnc tac pci ci = Inr m"
    by (cases "math_imsi mcc mnc tac pci ci") auto
  from rand_imsi_ok[OF add, of g] obtain r g' where
    r: "rand_imsi mcc mnc g = Inr (r, g')" "imsi_shape p py_isdigit r" by blast
  from Suc.prems(1) have rec: "imsi_loop mcc mnc tac pci ci (Suc i) n g' (acc @ [x, m, r]) = Inr pool"
    by (simp add: x m r)
  from Suc.IH[OF rec Suc.prems(2)] math_imsi_Inr[OF add m] x r show ?case
    by auto
qed

lemma imsi_loop_total:
  assumes add: "py_add mcc mnc = Inr (PStr p)" and m: "math_imsi mcc mnc tac pci ci = Inr m"
  shows "\<exists>pool. imsi_loop mcc mnc tac pci ci i n g acc = Inr pool \<and>
           length pool = length acc + 3 * n \<and> set acc \<subseteq> set pool \<and> (0 < n \<longrightarrow> m \<in> set pool)"
proof (induction n arbitrary: i g acc)
  case 0
  then show ?case by simp
next
  case (Suc n)
  from sha_imsi_ok[OF add, of tac pci ci i] obtain x where
    x: "sha_imsi mcc mnc tac pci ci i = Inr x" by blast
  from rand_imsi_ok[OF add, of g] obtain r g' where
    r: "rand_imsi mcc mnc g = Inr (r, g')" by blast
  from Suc.IH[of "Suc i" g' "acc @ [x, m, r]"] obtain pool where
    pool: "imsi_loop mcc mnc tac pci ci (Suc i) n g' (acc @ [x, m, r]) = Inr pool"
      "length pool = length (acc @ [x, m, r]) + 3 * n" "set (acc @ [x, m, r]) \<subseteq> set pool"
    by blast
  show ?case
    by (rule exI[of _ pool]) (use pool in \<open>simp add: x m r\<close>)
qed

lemma imsi_loop_type_error:
  assumes "\<not> (\<exists>p. py_add mcc mnc = Inr (PStr p))"
  shows "imsi_loop mcc mnc tac pci ci i (Suc n) g acc = Inl TypeError"
  by (simp add: sha_imsi_type_error[OF assms])



subsection \<open>What calculate_possible_imsis returns\<close>

lemma calc_unfold:
  "calculate_possible_imsis dd g h c =
     (case imsi_loop (base_mcc dd) (base_mnc dd) (base_tac dd) (base_pci dd) (base_ci dd) 0
             (nat (min c MAX_CALCULATIONS)) g [] of
        Inl e \<Rightarrow> Inl e
      | Inr pool \<Rightarrow> Inr (slice_to c (list_set h pool)))"
  by (simp add: calculate_possible_imsis_def Let_def base_mcc_def base_mnc_def base_tac_def
      base_pci_def base_ci_def)


lemma int_digits_digits:
  "list_all py_isdigit s \<Longrightarrow> s \<noteq> [] \<or> prev \<Longrightarrow> \<exists>n. int_digits prev acc s = Some n"
  by (induction s arbitrary: prev acc) auto

lemma dropWhile_hd_id: "s \<noteq> [] \<Longrightarrow> \<not> P (hd s) \<Longrightarrow> dropWhile P s = s"
  by (cases s) auto

lemma py_strip_id:
  assumes "s \<noteq> []" "\<not> py_isspace (hd s)" "\<not> py_isspace (last s)"
  shows "py_strip s = s"
proof -
  have a: "dropWhile py_isspace s = s" using assms(1,2) by (rule dropWhile_hd_id)
  have "dropWhile py_isspace (rev s) = rev s"
    using assms(1,3) by (intro dropWhile_hd_id) (simp_all add: hd_rev)
  with a show ?thesis by (simp add: py_strip_def)
qed

lemma int_str_digits:
  assumes "list_all py_isdigit s" "s \<noteq> []"
  shows "\<exists>n. int_str s = Inr n"
proof -
  obtain c cs where s: "s = c # cs" using assms(2) by (cases s) auto
  from assms have "py_isdigit (hd s)" "py_isdigit (last s)"
    by (auto simp: list_all_iff)
  then have strip: "py_strip s = s" using digit_not_space assms(2) by (intro py_strip_id) auto
  from assms s have "py_isdigit c" by simp
  then have ns: "c \<noteq> CHR ''+''" "c \<noteq> CHR ''-''" by (auto simp: py_isdigit_def digit_chars_def)
  from int_digits_digits[OF assms(1), of False 0] assms(2) obtain n where
    "int_digits False 0 s = Some n" by blast
  then show ?thesis using ns s strip by (simp add: int_str_def)
qed

lemma int_str_minus_digits:
  assumes "list_all py_isdigit s" "s \<noteq> []"
  shows "\<exists>n. int_str (CHR ''-'' # s) = Inr n"
proof -
  have "\<not> py_isspace CHR ''-''" by (simp add: py_isspace_def space_chars_def)
  moreover from assms have "py_isdigit (last s)" by (auto simp: list_all_iff)
  ultimately have strip: "py_strip (CHR ''-'' # s) = CHR ''-'' # s"
    using digit_not_space assms(2) by (intro py_strip_id) auto
  from int_digits_digits[OF assms(1), of False 0] assms(2) obtain n where
    "int_digits False 0 s = Some n" by blast
  then show ?thesis using strip by (simp add: int_str_def)
qed


lemma calc_count1:
  assumes add: "py_add (base_mcc dd) (base_mnc dd) = Inr (PStr p)"
    and m: "math_imsi (base_mcc dd) (base_mnc dd) (base_tac dd) (base_pci dd) (base_ci dd) = Inr m"
  shows "calculate_possible_imsis dd g (rank_first m) 1 = Inr [m]"
proof -
  from imsi_loop_total[OF add m, of 0 1 g "[]"] obtain pool where
    pool: "imsi_loop (base_mcc dd) (base_mnc dd) (base_tac dd) (base_pci dd) (base_ci dd) 0 1 g [] = Inr pool"
      "m \<in> set pool" by auto
  have n1: "nat (min 1 MAX_CALCULATIONS) = 1" by (simp add: MAX_CALCULATIONS_def)
  show ?thesis
    unfolding calc_unfold n1 pool(1) using take1_rank_first[OF pool(2)] by (simp add: slice_to_1)
qed

lemma calc_Inr_pool:
  assumes "calculate_possible_imsis dd g h c = Inr out"
  obtains pool where
    "imsi_loop (base_mcc dd) (base_mnc dd) (base_tac dd) (base_pci dd) (base_ci dd) 0
       (nat (min c MAX_CALCULATIONS)) g [] = Inr pool"
    "out = slice_to c (list_set h pool)"
  using assms by (auto simp: calc_unfold split: sum.splits)

lemma calc_elements:
  assumes r: "calculate_possible_imsis dd g h c = Inr out" and s: "s \<in> set out"
  shows "\<exists>a b. base_mcc dd = PStr a \<and> base_mnc dd = PStr b \<and>
           (imsi_shape (a @ b) py_isdigit s \<or>
            (imsi_shape (a @ b) py_ishex s \<and>
             (\<exists>j. sha_imsi (base_mcc dd) (base_mnc dd) (base_tac dd) (base_pci dd) (base_ci dd) j = Inr s)))"
proof -
  from r obtain pool where
    pool: "imsi_loop (base_mcc dd) (base_mnc dd) (base_tac dd) (base_pci dd) (base_ci dd) 0
       (nat (min c MAX_CALCULATIONS)) g [] = Inr pool"
    and out: "out = slice_to c (list_set h pool)" by (rule calc_Inr_pool)
  from s out have sp: "s \<in> set pool" using set_slice_to set_list_set by fastforce
  then obtain k where k: "nat (min c MAX_CALCULATIONS) = Suc k"
    using pool by (cases "nat (min c MAX_CALCULATIONS)") auto
  have "\<exists>p. py_add (base_mcc dd) (base_mnc dd) = Inr (PStr p)"
  proof (rule ccontr)
    assume "\<not> ?thesis"
    from imsi_loop_type_error[OF this] pool k show False by simp
  qed
  then obtain p where add: "py_add (base_mcc dd) (base_mnc dd) = Inr (PStr p)" by blast
  then obtain a b where ab: "base_mcc dd = PStr a" "base_mnc dd = PStr b" "p = a @ b"
    by (cases "base_mcc dd"; cases "base_mnc dd") (auto simp: py_add_def)
  from imsi_loop_pool[OF add pool sp] ab show ?thesis by auto
qed










subsection \<open>Evaluation on concrete values\<close>



subsection \<open>What the matcher returns\<close>

lemma try_each_Some: "try_each f ks = Some r \<Longrightarrow> \<exists>k \<in> set ks. f k = Some r"
  by (induction ks) (auto split: option.splits)

lemma list_all_take: "k \<le> length (takeWhile p s) \<Longrightarrow> list_all p (take k s)"
proof -
  assume k: "k \<le> length (takeWhile p s)"
  have "take k s = take k (takeWhile p s)"
    by (metis k append_eq_conv_conj takeWhile_dropWhile_id take_append take_all_iff
        append.right_neutral diff_is_0_eq take_0)
  also have "list_all p \<dots>"
    by (metis in_set_takeD list_all_iff set_takeWhileD)
  finally show ?thesis .
qed

lemma choices_ok: "k \<in> set (choices a s) \<Longrightarrow> atom_ok a (take k s)"
proof (cases a)
  case (Lit l)
  assume "k \<in> set (choices a s)"
  with Lit show ?thesis by (auto split: if_splits)
next
  case (Many p)
  assume "k \<in> set (choices a s)"
  with Many show ?thesis by (auto intro: list_all_take)
next
  case (Many1 p)
  assume "k \<in> set (choices a s)"
  with Many1 have k: "1 \<le> k" "k \<le> length (takeWhile p s)" by auto
  then have "s \<noteq> []" by auto
  with k Many1 show ?thesis by (auto intro: list_all_take)
next
  case (Few1 p)
  assume "k \<in> set (choices a s)"
  with Few1 have k: "1 \<le> k" "k \<le> length (takeWhile p s)" by auto
  then have "s \<noteq> []" by auto
  with k Few1 show ?thesis by (auto intro: list_all_take)
next
  case (Maybe c)
  assume "k \<in> set (choices a s)"
  with Maybe show ?thesis by (cases s) (auto split: if_splits)
qed

lemma rmatch_sound: "rmatch rs s = Some ms \<Longrightarrow> list_all2 atom_ok rs ms"
proof (induction rs arbitrary: s ms)
  case Nil
  then show ?case by simp
next
  case (Cons a rs)
  from Cons.prems try_each_Some obtain k where
    k: "k \<in> set (choices a s)" "map_option (\<lambda>ms. take k s # ms) (rmatch rs (drop k s)) = Some ms"
    by fastforce
  then obtain ms' where ms': "rmatch rs (drop k s) = Some ms'" "ms = take k s # ms'" by auto
  from Cons.IH[OF ms'(1)] choices_ok[OF k(1)] ms'(2) show ?case by simp
qed

lemma rmatch_length: "rmatch rs s = Some ms \<Longrightarrow> length (concat ms) \<le> length s"
proof (induction rs arbitrary: s ms)
  case Nil
  then show ?case by simp
next
  case (Cons a rs)
  from Cons.prems try_each_Some obtain k where
    k: "map_option (\<lambda>ms. take k s # ms) (rmatch rs (drop k s)) = Some ms"
    by fastforce
  then obtain ms' where ms': "rmatch rs (drop k s) = Some ms'" "ms = take k s # ms'" by auto
  from Cons.IH[OF ms'(1)] ms'(2) show ?case by auto
qed

lemma search_sound: "search rs s = Some (ms, rest) \<Longrightarrow> list_all2 atom_ok rs ms"
  by (induction rs s rule: search.induct) (auto split: option.splits dest: rmatch_sound)

lemma search_rest:
  "search rs s = Some (ms, rest) \<Longrightarrow> length rest + length (concat ms) \<le> length s"
proof (induction rs s rule: search.induct)
  case (1 rs)
  then show ?case by (auto split: option.splits dest: rmatch_length)
next
  case (2 rs c t)
  show ?case
  proof (cases "rmatch rs (c # t)")
    case None
    with 2 show ?thesis by auto
  next
    case (Some a)
    with 2(2) rmatch_length[OF Some] show ?thesis by auto
  qed
qed

lemma findall_sound: "ms \<in> set (findall rs s) \<Longrightarrow> list_all2 atom_ok rs ms"
proof (induction rs s rule: findall.induct)
  case (1 rs s)
  show ?case
  proof (cases "search rs s")
    case None
    with 1(2) show ?thesis by (simp add: findall.simps)
  next
    case (Some a)
    obtain m rest where a: "a = (m, rest)" by (cases a)
    from 1(2) Some a have "ms = m \<or> (length rest < length s \<and> ms \<in> set (findall rs rest))"
      by (subst (asm) findall.simps) (auto split: if_splits)
    with 1(1)[OF Some a[symmetric]] search_sound[of rs s m rest] Some a show ?thesis by auto
  qed
qed

subsection \<open>The parser never raises\<close>

lemma signed_digits_int:
  assumes "m = [] \<or> m = ''-''" "d \<noteq> []" "list_all py_isdigit d"
  shows "\<exists>n. py_int (PStr (m @ d)) = Inr n"
  using assms int_str_digits[of d] int_str_minus_digits[of d] by (auto simp: py_int_def)

lemma lte_groups:
  assumes "list_all2 atom_ok lte_rx ms"
  shows "\<exists>n. py_int (PStr (grp 4 6 ms)) = Inr n"
proof -
  from assms obtain m0 m1 m2 m3 m4 m5 where ms: "ms = [m0, m1, m2, m3, m4, m5]"
    by (auto simp: lte_rx_def list_all2_Cons1)
  with assms have "m4 = [] \<or> m4 = ''-''" "m5 \<noteq> []" "list_all py_isdigit m5"
    by (auto simp: lte_rx_def)
  from signed_digits_int[OF this] show ?thesis by (simp add: ms grp_def)
qed

lemma wifi_groups:
  assumes "list_all2 atom_ok wifi_rx ms"
  shows "(\<exists>n. py_int (PStr (grp 7 9 ms)) = Inr n) \<and> (\<exists>n. py_int (PStr (ms ! 12)) = Inr n)"
proof -
  from assms obtain m0 m1 m2 m3 m4 m5 m6 m7 m8 m9 m10 m11 m12 where
    ms: "ms = [m0, m1, m2, m3, m4, m5, m6, m7, m8, m9, m10, m11, m12]"
    by (auto simp: wifi_rx_def list_all2_Cons1)
  with assms have a: "m7 = [] \<or> m7 = ''-''" "m8 \<noteq> []" "list_all py_isdigit m8"
    and b: "m12 \<noteq> []" "list_all py_isdigit m12"
    by (auto simp: wifi_rx_def)
  from signed_digits_int[OF a] signed_digits_int[of "[]" m12] b
  show ?thesis by (simp add: ms grp_def)
qed

lemma lte_loop_total:
  "list_all (list_all2 atom_ok lte_rx) mss \<Longrightarrow> \<exists>cell'. lte_loop mss cell = Inr cell'"
proof (induction mss arbitrary: cell)
  case Nil
  then show ?case by simp
next
  case (Cons ms mss)
  from Cons.prems lte_groups[of ms] obtain n where "py_int (PStr (grp 4 6 ms)) = Inr n" by auto
  with Cons show ?case by simp
qed

lemma wifi_loop_total:
  "list_all (list_all2 atom_ok wifi_rx) mss \<Longrightarrow> \<exists>nets'. wifi_loop mss nets = Inr nets'"
proof (induction mss arbitrary: nets)
  case Nil
  then show ?case by simp
next
  case (Cons ms mss)
  from Cons.prems wifi_groups[of ms] obtain n k where
    "py_int (PStr (grp 7 9 ms)) = Inr n" "py_int (PStr (ms ! 12)) = Inr k" by auto
  with Cons show ?case by simp
qed

lemma findall_all_ok: "list_all (list_all2 atom_ok rs) (findall rs s)"
  using findall_sound by (auto simp: list_all_iff)

lemma parse_total: "\<exists>r. parse_report_content now content = Inr r"
proof -
  from wifi_loop_total[OF findall_all_ok] obtain nets where
    n: "wifi_loop (findall wifi_rx content) [] = Inr nets" by blast
  from lte_loop_total[OF findall_all_ok] obtain cell where
    c: "lte_loop (findall lte_rx content)
          (case search cell_rx content of None \<Rightarrow> Map.empty
           | Some (ms, _) \<Rightarrow> [''location'' \<mapsto> PStr (ms ! 4)]) = Inr cell" by blast
  show ?thesis by (simp add: parse_report_content_def Let_def n c)
qed

lemma parse_fields:
  assumes "parse_report_content now content = Inr r"
  shows "permissions r = fold (perm_step content) (zip perm_keys perm_patterns) Map.empty"
    and "lte_loop (findall lte_rx content)
          (case search cell_rx content of None \<Rightarrow> Map.empty
           | Some (ms, _) \<Rightarrow> [''location'' \<mapsto> PStr (ms ! 4)]) = Inr (cell_info r)"
    and "wifi_loop (findall wifi_rx content) [] = Inr (networks (wifi_info r))"
    and "timestamp r = now"
    and "sim_info r = (case search sim_rx content of None \<Rightarrow> Map.empty
           | Some (ms, _) \<Rightarrow> [''operator'' \<mapsto> ms ! 2, ''mccmnc'' \<mapsto> ms ! 5])"
    and "device_info r =
         (case search android_rx content of
            None \<Rightarrow> (case search device_rx content of None \<Rightarrow> Map.empty
                      | Some (ms, _) \<Rightarrow> [''model'' \<mapsto> ms ! 2, ''hardware'' \<mapsto> ms ! 6])
          | Some (ms', _) \<Rightarrow>
              (case search device_rx content of None \<Rightarrow> Map.empty
               | Some (ms, _) \<Rightarrow> [''model'' \<mapsto> ms ! 2, ''hardware'' \<mapsto> ms ! 6])
              (''android_version'' \<mapsto> ms' ! 2))"
  using assms
  by (auto simp: parse_report_content_def Let_def split: sum.splits option.splits)

subsection \<open>Unrecognized input and the permission flags\<close>






lemma perm_fold_other:
  "key \<notin> fst ` set kps \<Longrightarrow> fold (perm_step content) kps m key = m key"
  by (induction kps arbitrary: m) (auto simp: perm_step_def split: option.splits)

lemma perm_fold_lookup:
  assumes "distinct (map fst kps)" "(key, pattern) \<in> set kps"
    "search pattern content = Some (ms, rest)"
  shows "fold (perm_step content) kps m key = Some (perm_flag (ms ! 4))"
  using assms(1,2)
proof (induction kps arbitrary: m)
  case Nil
  then show ?case by simp
next
  case (Cons kp kps)
  show ?case
  proof (cases "kp = (key, pattern)")
    case True
    with Cons.prems(1) have "key \<notin> fst ` set kps" by auto
    note other = perm_fold_other[OF this, of content]
    have step: "perm_step content kp m = m(key \<mapsto> perm_flag (ms ! 4))"
      using True assms(3) by (simp add: perm_step_def)
    show ?thesis by (simp add: step other)
  next
    case False
    with Cons.prems have "distinct (map fst kps)" "(key, pattern) \<in> set kps" by auto
    from Cons.IH[OF this] show ?thesis by simp
  qed
qed

lemma perm_keys_distinct: "distinct (map fst (zip perm_keys perm_patterns))"
  by (simp add: perm_keys_def perm_patterns_def)

lemma perm_flag_examples:
  "perm_flag ''true'' \<and> perm_flag ''True'' \<and> perm_flag ''TRUE'' \<and>
   \<not> perm_flag ''false'' \<and> \<not> perm_flag ''unknown''"
  by code_simp

subsection \<open>The scan for labelled integers\<close>







subsection \<open>The scans always advance\<close>

lemma findall_progress:
  assumes "search rs s = Some (ms, rest)" "concat ms \<noteq> []"
  shows "length rest < length s"
  using search_rest[OF assms(1)] assms(2) by (cases "concat ms") auto

lemma lte_match_nonempty: "list_all2 atom_ok lte_rx ms \<Longrightarrow> concat ms \<noteq> []"
  by (auto simp: lte_rx_def list_all2_Cons1)

lemma wifi_match_nonempty: "list_all2 atom_ok wifi_rx ms \<Longrightarrow> concat ms \<noteq> []"
  by (auto simp: wifi_rx_def list_all2_Cons1)

lemma findall_lte:
  "findall lte_rx s =
     (case search lte_rx s of None \<Rightarrow> [] | Some (ms, rest) \<Rightarrow> ms # findall lte_rx rest)"
proof (cases "search lte_rx s")
  case None
  then show ?thesis by (simp add: findall.simps)
next
  case (Some a)
  obtain ms rest where a: "a = (ms, rest)" by (cases a)
  from Some a have s: "search lte_rx s = Some (ms, rest)" by simp
  from findall_progress[OF s lte_match_nonempty[OF search_sound[OF s]]]
  show ?thesis by (subst findall.simps) (simp add: s)
qed

lemma findall_wifi:
  "findall wifi_rx s =
     (case search wifi_rx s of None \<Rightarrow> [] | Some (ms, rest) \<Rightarrow> ms # findall wifi_rx rest)"
proof (cases "search wifi_rx s")
  case None
  then show ?thesis by (simp add: findall.simps)
next
  case (Some a)
  obtain ms rest where a: "a = (ms, rest)" by (cases a)
  from Some a have s: "search wifi_rx s = Some (ms, rest)" by simp
  from findall_progress[OF s wifi_match_nonempty[OF search_sound[OF s]]]
  show ?thesis by (subst findall.simps) (simp add: s)
qed

subsection \<open>The arithmetic candidate without a cell-id\<close>







subsection \<open>Check digits of the equipment identifiers\<close>

lemma digit_val_char: "digit_val (digit_char n) = n mod 10"
proof -
  have "n mod 10 < 10" by simp
  then have "n mod 10 = 0 \<or> n mod 10 = 1 \<or> n mod 10 = 2 \<or> n mod 10 = 3 \<or> n mod 10 = 4 \<or>
             n mod 10 = 5 \<or> n mod 10 = 6 \<or> n mod 10 = 7 \<or> n mod 10 = 8 \<or> n mod 10 = 9"
    by arith
  then show ?thesis
    unfolding digit_char_def digit_chars_def digit_val_def
    by (elim disjE) simp_all
qed

lemma imei_step_check:
  "\<exists>imei g'. imei_step g = Inr (imei, g') \<and> length imei = 15 \<and> list_all py_isdigit imei \<and>
             check_digit (take 14 imei) = Inr (int (digit_val (imei ! 14)))"
proof -
  obtain tac g1 where c: "choice tac_db g = (tac, g1)" by (cases "choice tac_db g")
  obtain serial g2 where r: "rand_digits 12 g1 = (serial, g2)" by (cases "rand_digits 12 g1")
  note t = tac_db_ok[OF c] and s = rand_digits_ok[OF r]
  define base where "base = tac @ serial"
  from t s have d: "list_all py_isdigit base" and l: "length base = 14"
    by (simp_all add: base_def)
  from check_digit_digits[OF d] obtain cd where
    cd: "check_digit base = Inr cd" "0 \<le> cd" "cd < 10" by blast
  have st: "imei_step g = Inr (base @ [digit_char (nat cd)], g2)"
    using c r cd by (simp add: imei_step_def str_int_digit base_def)
  have v: "int (digit_val (digit_char (nat cd))) = cd"
    using cd by (simp add: digit_val_char)
  have "length (base @ [digit_char (nat cd)]) = 15" using l by simp
  moreover have "list_all py_isdigit (base @ [digit_char (nat cd)])"
    using d by (simp add: digit_char_isdigit)
  moreover have "take 14 (base @ [digit_char (nat cd)]) = base" using l by simp
  moreover have "(base @ [digit_char (nat cd)]) ! 14 = digit_char (nat cd)"
    using l by (simp add: nth_append)
  ultimately show ?thesis using st cd(1) v by auto
qed

lemma imei_loop_check:
  "\<exists>xs. imei_loop n g acc = Inr (acc @ xs) \<and> length xs = n \<and>
        list_all (\<lambda>s. length s = 15 \<and> list_all py_isdigit s \<and>
                      check_digit (take 14 s) = Inr (int (digit_val (s ! 14)))) xs"
proof (induction n arbitrary: g acc)
  case 0
  then show ?case by simp
next
  case (Suc n)
  obtain imei g' where st: "imei_step g = Inr (imei, g')" "length imei = 15" "list_all py_isdigit imei"
    "check_digit (take 14 imei) = Inr (int (digit_val (imei ! 14)))"
    using imei_step_check[of g] by blast
  from Suc.IH[of g' "acc @ [imei]"] obtain xs where
    xs: "imei_loop n g' (acc @ [imei]) = Inr ((acc @ [imei]) @ xs)" "length xs = n"
        "list_all (\<lambda>s. length s = 15 \<and> list_all py_isdigit s \<and>
                      check_digit (take 14 s) = Inr (int (digit_val (s ! 14)))) xs" by blast
  show ?case
    by (rule exI[of _ "imei # xs"]) (simp add: st xs)
qed

lemma calc_type_error:
  assumes "1 \<le> c" and "base_mcc dd = PInt n \<or> base_mnc dd = PInt n"
  shows "calculate_possible_imsis dd g h c = Inl TypeError"
proof -
  from assms(2) have "\<not> (\<exists>p. py_add (base_mcc dd) (base_mnc dd) = Inr (PStr p))"
    by (cases "base_mcc dd"; cases "base_mnc dd") (auto simp: py_add_def)
  note err = imsi_loop_type_error[OF this]
  from assms(1) obtain k where k: "nat (min c MAX_CALCULATIONS) = Suc k"
    by (cases "nat (min c MAX_CALCULATIONS)") (auto simp: MAX_CALCULATIONS_def)
  show ?thesis unfolding calc_unfold k err by simp
qed

section \<open>The claims\<close>

text \<open>
  C1: every identifier returned by \<^verbatim>\<open>calculate_possible_imeis\<close> satisfies the Luhn checksum.
  The source doubles the digits at the even positions of the 14-digit payload; Luhn
  validation of the 15-digit identifier doubles the odd ones.  With the draws that select
  the prefix \<open>35\<close> and the serial \<open>000000000000\<close> the function returns
  \<open>350000000000009\<close>, whose Luhn sum is 13.
\<close>

theorem imei_fails_luhn:
  "calculate_possible_imeis (\<lambda>n. 0) 1 = Inr [''350000000000009''] \<and>
   \<not> luhn_valid ''350000000000009''"
  by code_simp

text \<open>
  C2 (as stated): every candidate returned by \<^verbatim>\<open>calculate_possible_imsis\<close> is a digit
  string of 15 digits.  With no device data (the defaults \<open>310\<close> and \<open>260\<close>) and a
  count of 1 the function can return the arithmetic candidate, which has 16 characters.
\<close>

theorem imsi_default_has_16_digits:
  "calculate_possible_imsis Map.empty (\<lambda>n. 0) (rank_first ''3102600000000000'') 1
     = Inr [''3102600000000000''] \<and>
   length ''3102600000000000'' \<noteq> 15"
proof -
  have add: "py_add (base_mcc Map.empty) (base_mnc Map.empty) = Inr (PStr ''310260'')"
    by code_simp
  have m: "math_imsi (base_mcc Map.empty) (base_mnc Map.empty) (base_tac Map.empty)
             (base_pci Map.empty) (base_ci Map.empty) = Inr ''3102600000000000''"
    by code_simp
  from calc_count1[OF add m] show ?thesis by simp
qed

text \<open>
  C2 (amended): every candidate returned by \<^verbatim>\<open>calculate_possible_imsis\<close> consists of the
  strings \<open>mcc\<close> and \<open>mnc\<close> followed by exactly ten generated characters, so it has
  \<open>len(mcc) + len(mnc) + 10\<close> characters (16 with the defaults); the ten characters are
  decimal digits for the arithmetic and the random candidate and lowercase hexadecimal
  digits for a hash-derived candidate.
\<close>

theorem imsi_candidate_shape:
  assumes "calculate_possible_imsis dd g h c = Inr out" and "s \<in> set out"
  shows "\<exists>a b. base_mcc dd = PStr a \<and> base_mnc dd = PStr b \<and>
           (imsi_shape (a @ b) py_isdigit s \<or>
            (imsi_shape (a @ b) py_ishex s \<and>
             (\<exists>j. sha_imsi (base_mcc dd) (base_mnc dd) (base_tac dd) (base_pci dd) (base_ci dd) j
                    = Inr s)))"
  using assms by (rule calc_elements)

theorem imsi_candidate_shape_witness:
  "calculate_possible_imsis [''mnc'' \<mapsto> PStr ''26''] (\<lambda>n. 0) (rank_first ''310260000000000'') 1
     = Inr [''310260000000000''] \<and>
   ''310260000000000'' \<in> set [''310260000000000''] \<and>
   (\<exists>a b. base_mcc [''mnc'' \<mapsto> PStr ''26''] = PStr a \<and>
          base_mnc [''mnc'' \<mapsto> PStr ''26''] = PStr b \<and>
          (imsi_shape (a @ b) py_isdigit ''310260000000000'' \<or>
           (imsi_shape (a @ b) py_ishex ''310260000000000'' \<and>
            (\<exists>j. sha_imsi (base_mcc [''mnc'' \<mapsto> PStr ''26'']) (base_mnc [''mnc'' \<mapsto> PStr ''26''])
                   (base_tac [''mnc'' \<mapsto> PStr ''26'']) (base_pci [''mnc'' \<mapsto> PStr ''26''])
                   (base_ci [''mnc'' \<mapsto> PStr ''26'']) j = Inr ''310260000000000''))))"
proof -
  define dd :: "string \<rightharpoonup> pyval" where "dd = [''mnc'' \<mapsto> PStr ''26'']"
  have add: "py_add (base_mcc dd) (base_mnc dd) = Inr (PStr ''31026'')"
    unfolding dd_def by code_simp
  have m: "math_imsi (base_mcc dd) (base_mnc dd) (base_tac dd) (base_pci dd) (base_ci dd)
             = Inr ''310260000000000''"
    unfolding dd_def by code_simp
  note r = calc_count1[OF add m, of "\<lambda>n. 0"]
  have mem: "''310260000000000'' \<in> set [''310260000000000'']" by simp
  from r mem imsi_candidate_shape[OF r mem] show ?thesis unfolding dd_def by blast
qed

text \<open>
  C3 (as stated): the captured token maps to true only when it is the exact lowercase
  literal \<open>true\<close>, and \<open>True\<close> maps to false.  The token is lowercased before the
  comparison, so \<open>True\<close> maps to true.
\<close>

theorem permission_True_is_true:
  "perm_flag ''True'' \<and> ''True'' \<noteq> ''true'' \<and>
   (case parse_report_content ''t'' ''Is Location Enabled: True'' of
      Inl e \<Rightarrow> False
    | Inr r \<Rightarrow> permissions r ''location_enabled'' = Some True)"
  by code_simp

text \<open>
  C3 (amended): for every permission line matched by the parser, the captured word token
  maps to true exactly when its lowercased form is \<open>true\<close>: \<open>true\<close>, \<open>True\<close> and
  \<open>TRUE\<close> map to true, \<open>false\<close> and \<open>unknown\<close> to false.
\<close>

theorem permission_flag:
  assumes "(key, pattern) \<in> set (zip perm_keys perm_patterns)"
    and "search pattern content = Some (ms, rest)"
  shows "(\<exists>r. parse_report_content now content = Inr r \<and>
              permissions r key = Some (py_lower (ms ! 4) = ''true'')) \<and>
         perm_flag ''true'' \<and> perm_flag ''True'' \<and> perm_flag ''TRUE'' \<and>
         \<not> perm_flag ''false'' \<and> \<not> perm_flag ''unknown''"
proof -
  obtain r where r: "parse_report_content now content = Inr r" using parse_total by blast
  from parse_fields(1)[OF r] perm_fold_lookup[OF perm_keys_distinct assms]
  have "permissions r key = Some (py_lower (ms ! 4) = ''true'')"
    by (simp add: perm_flag_def)
  with r perm_flag_examples show ?thesis by blast
qed

theorem permission_flag_witness:
  "(''phone_state'', perm_rx ''Phone State access'') \<in> set (zip perm_keys perm_patterns) \<and>
   search (perm_rx ''Phone State access'') ''Phone State access : TRUE''
     = Some ([''Phone State access'', '' '', '':'', '' '', ''TRUE''], []) \<and>
   (\<exists>r. parse_report_content ''t'' ''Phone State access : TRUE'' = Inr r \<and>
        permissions r ''phone_state'' = Some True)"
proof -
  have a: "(''phone_state'', perm_rx ''Phone State access'') \<in> set (zip perm_keys perm_patterns)"
    by (simp add: perm_keys_def perm_patterns_def)
  have b: "search (perm_rx ''Phone State access'') ''Phone State access : TRUE''
     = Some ([''Phone State access'', '' '', '':'', '' '', ''TRUE''], [])"
    by code_simp
  have c: "(py_lower ([''Phone State access'', '' '', '':'', '' '', ''TRUE''] ! 4) = ''true'') = True"
    by code_simp
  from permission_flag[OF a b, of "''t''"]
  have "\<exists>r. parse_report_content ''t'' ''Phone State access : TRUE'' = Inr r \<and>
        permissions r ''phone_state'' = Some True"
    unfolding c by blast
  with a b show ?thesis by blast
qed














text \<open>
  C9 (as stated): the check-digit computation applied to the base digits
  \<open>356938035643809\<close> produces check digit 7.  The loop of the source yields 6 on this
  vector: the doubled positions 0, 2, ..., 14 contribute 40, the others 34.
\<close>

theorem check_digit_vector_not_7:
  "check_digit ''356938035643809'' \<noteq> Inr 7"
  by code_simp

text \<open>
  C9 (amended): the check-digit computation applied to the base digits
  \<open>356938035643809\<close> produces check digit 6, and appending it gives
  \<open>3569380356438096\<close>.
\<close>

theorem check_digit_vector:
  "check_digit ''356938035643809'' = Inr 6 \<and>
   ''356938035643809'' @ str_int 6 = ''3569380356438096''"
  by code_simp



section \<open>Further results\<close>

text \<open>
  The identifiers of \<^verbatim>\<open>calculate_possible_imeis\<close>: for every count and every sequence of
  random draws the function returns \<open>min(max(count, 0), 100)\<close> strings of 15 decimal
  digits, the last of which is the check digit the loop of the source computes from the
  first 14.
\<close>

theorem imeis_shape:
  "\<exists>out. calculate_possible_imeis g c = Inr out \<and>
         int (length out) = min (max c 0) MAX_CALCULATIONS \<and>
         list_all (\<lambda>s. length s = 15 \<and> list_all py_isdigit s \<and>
                       check_digit (take 14 s) = Inr (int (digit_val (s ! 14)))) out"
  using imei_loop_check[of "nat (min c MAX_CALCULATIONS)" g "[]"]
  by (auto simp: calculate_possible_imeis_def MAX_CALCULATIONS_def)

text \<open>
  With the integers the parser stores under \<open>mcc\<close> and \<open>mnc\<close>, the first sum of the loop,
  \<^verbatim>\<open>mcc + mnc + <str>\<close>, adds an integer and a string: \<^verbatim>\<open>calculate_possible_imsis\<close> raises
  \<open>TypeError\<close> for every count of at least 1.
\<close>

theorem imsi_type_error_on_parsed_cell:
  "(case parse_report_content ''t'' ''mcc: 310 mnc: 260 cid: 5'' of
      Inl e \<Rightarrow> False
    | Inr r \<Rightarrow> cell_info r ''mcc'' = Some (PInt 310) \<and>
              calculate_possible_imsis (cell_info r) (\<lambda>n. 0) (\<lambda>s. 0) 1 = Inl TypeError)"
proof -
  obtain r where r: "parse_report_content ''t'' ''mcc: 310 mnc: 260 cid: 5'' = Inr r"
    using parse_total by blast
  have e: "case parse_report_content ''t'' ''mcc: 310 mnc: 260 cid: 5'' of
      Inl e \<Rightarrow> False | Inr r \<Rightarrow> cell_info r ''mcc'' = Some (PInt 310)"
    by code_simp
  with r have m: "cell_info r ''mcc'' = Some (PInt 310)" by simp
  then have "base_mcc (cell_info r) = PInt 310" by (simp add: base_mcc_def dict_get_def)
  then have "base_mcc (cell_info r) = PInt 310 \<or> base_mnc (cell_info r) = PInt 310" by simp
  from calc_type_error[OF _ this, of 1 "\<lambda>n. 0" "\<lambda>s. 0"] m r show ?thesis by simp
qed

end
